theory Spec2Isabelle
  imports Complex_Main "HOL-Library.Sublist" "HOL-Library.List_Lexorder" "HOL-Library.Char_ord"
begin

section \<open>The decision table\<close>

text \<open>
  The analysis functions of \<^verbatim>\<open>app.py\<close> work on a pandas frame built by
  \<^verbatim>\<open>pd.DataFrame(data, columns=columns)\<close>: a list of column names and a list of rows of
  string cells. The index of the frame is the default range index, so the label of a row is
  its position. A lookup of a label that the frame does not have raises \<^verbatim>\<open>KeyError\<close>.
\<close>

datatype error = KeyError

record dataframe =
  columns :: "string list"
  data :: "string list list"

text \<open>\<^verbatim>\<open>row[a]\<close> on one row of the frame.\<close>

definition row_get :: "string list \<Rightarrow> string list \<Rightarrow> string \<Rightarrow> error + string" where
  "row_get cols row a = (case map_of (zip cols row) a of None \<Rightarrow> Inl KeyError | Some v \<Rightarrow> Inr v)"

text \<open>\<^verbatim>\<open>df.loc[idx, a]\<close>: the row label first, then the column.\<close>

definition cell :: "dataframe \<Rightarrow> nat \<Rightarrow> string \<Rightarrow> error + string" where
  "cell df idx a =
     (if idx < length (data df) then row_get (columns df) (data df ! idx) a else Inl KeyError)"

text \<open>A comprehension whose element expression may raise: the first failure ends it.\<close>

fun map_err :: "('a \<Rightarrow> error + 'b) \<Rightarrow> 'a list \<Rightarrow> error + 'b list" where
  "map_err f [] = Inr []"
| "map_err f (x # xs) =
     (case f x of
        Inl e \<Rightarrow> Inl e
      | Inr y \<Rightarrow> (case map_err f xs of Inl e \<Rightarrow> Inl e | Inr ys \<Rightarrow> Inr (y # ys)))"

text \<open>\<^verbatim>\<open>df[c]\<close>: one column, top to bottom.\<close>

definition column :: "dataframe \<Rightarrow> string \<Rightarrow> error + string list" where
  "column df c =
     (if c \<in> set (columns df) then map_err (\<lambda>row. row_get (columns df) row c) (data df)
      else Inl KeyError)"

text \<open>\<^verbatim>\<open>df.loc[cls]["Decision"]\<close>: the decisions of the rows labelled by \<open>cls\<close>.\<close>

definition loc_decisions :: "dataframe \<Rightarrow> nat list \<Rightarrow> error + string list" where
  "loc_decisions df cls = map_err (\<lambda>idx. cell df idx ''Decision'') cls"

text \<open>
  The frame of the application (lines 22 to 34): the condition attributes followed by the
  \<^verbatim>\<open>Decision\<close> column, distinct names, one cell per column in every row. The check of
  line 100 (no empty cell) is not needed by any result below.
\<close>

definition attr_names :: "dataframe \<Rightarrow> string list" where
  "attr_names df = butlast (columns df)"

definition valid_table :: "dataframe \<Rightarrow> bool" where
  "valid_table df \<longleftrightarrow>
     columns df \<noteq> [] \<and> last (columns df) = ''Decision'' \<and> distinct (columns df) \<and>
     list_all (\<lambda>row. length row = length (columns df)) (data df)"

section \<open>Equivalence classes\<close>

text \<open>
  The dictionary \<^verbatim>\<open>groups\<close> keeps its keys in insertion order, so it is an association
  list; \<^verbatim>\<open>groups.setdefault(key, []).append(idx)\<close> extends the list of a known key in
  place and puts a new key last.
\<close>

fun setdefault_append :: "'k \<Rightarrow> nat \<Rightarrow> ('k \<times> nat list) list \<Rightarrow> ('k \<times> nat list) list" where
  "setdefault_append key idx [] = [(key, [idx])]"
| "setdefault_append key idx ((k, v) # groups) =
     (if k = key then (k, v @ [idx]) # groups else (k, v) # setdefault_append key idx groups)"

fun ec_loop ::
  "string list \<Rightarrow> string list \<Rightarrow> (nat \<times> string list) list \<Rightarrow>
   (string list \<times> nat list) list \<Rightarrow> error + (string list \<times> nat list) list" where
  "ec_loop cols attributes [] groups = Inr groups"
| "ec_loop cols attributes ((idx, row) # rest) groups =
     (case map_err (row_get cols row) attributes of
        Inl e \<Rightarrow> Inl e
      | Inr key \<Rightarrow> ec_loop cols attributes rest (setdefault_append key idx groups))"

definition equivalence_classes :: "dataframe \<Rightarrow> string list \<Rightarrow> error + nat list list" where
  "equivalence_classes df attributes =
     (case ec_loop (columns df) attributes (enumerate 0 (data df)) [] of
        Inl e \<Rightarrow> Inl e
      | Inr groups \<Rightarrow> Inr (map snd groups))"

section \<open>Approximations\<close>

function lu_loop ::
  "dataframe \<Rightarrow> string \<Rightarrow> nat list list \<Rightarrow> nat list \<Rightarrow> nat list \<Rightarrow>
   error + (nat list \<times> nat list)" where
  "lu_loop df decision_value [] lower upper = Inr (lower, upper)"
| "lu_loop df decision_value (cls # eq) lower upper =
     (case loc_decisions df cls of
        Inl e \<Rightarrow> Inl e
      | Inr ds \<Rightarrow>
          (if set ds = {decision_value}
             then lu_loop df decision_value eq (lower @ cls) (upper @ cls)
           else if decision_value \<in> set ds
             then lu_loop df decision_value eq lower (upper @ cls)
           else lu_loop df decision_value eq lower upper))"
  by pat_completeness auto
termination
  by (relation "measure (\<lambda>(df, decision_value, eq, lower, upper). length eq)") auto

definition lower_upper ::
  "dataframe \<Rightarrow> string list \<Rightarrow> string \<Rightarrow> error + (nat list \<times> nat list)" where
  "lower_upper df attrs decision_value =
     (case equivalence_classes df attrs of
        Inl e \<Rightarrow> Inl e
      | Inr eq \<Rightarrow>
          (case lu_loop df decision_value eq [] [] of
             Inl e \<Rightarrow> Inl e
           | Inr (lower, upper) \<Rightarrow>
               Inr (sorted_list_of_set (set lower), sorted_list_of_set (set upper))))"

text \<open>Lines 112 and 118 of the run block. The quotient is taken exactly.\<close>

definition boundary :: "nat list \<Rightarrow> nat list \<Rightarrow> nat list" where
  "boundary lower upper = sorted_list_of_set (set upper - set lower)"

definition accuracy :: "nat list \<Rightarrow> nat list \<Rightarrow> real" where
  "accuracy lower upper =
     (if length upper \<noteq> 0 then real (length lower) / real (length upper) else 0)"

section \<open>Reducts\<close>

text \<open>\<^verbatim>\<open>itertools.combinations(attrs, r)\<close>: the subsequences of length \<open>r\<close>, by position.\<close>

fun combinations :: "'a list \<Rightarrow> nat \<Rightarrow> 'a list list" where
  "combinations xs 0 = [[]]"
| "combinations [] (Suc r) = []"
| "combinations (x # xs) (Suc r) = map ((#) x) (combinations xs r) @ combinations xs (Suc r)"

fun reducts_combos ::
  "dataframe \<Rightarrow> nat list list \<Rightarrow> string list list \<Rightarrow> string list list \<Rightarrow>
   error + string list list" where
  "reducts_combos df full [] red = Inr red"
| "reducts_combos df full (combo # rest) red =
     (case equivalence_classes df combo of
        Inl e \<Rightarrow> Inl e
      | Inr p \<Rightarrow> reducts_combos df full rest (if p = full then red @ [combo] else red))"

fun reducts_sizes ::
  "dataframe \<Rightarrow> string list \<Rightarrow> nat list list \<Rightarrow> nat list \<Rightarrow> string list list \<Rightarrow>
   error + string list list" where
  "reducts_sizes df attrs full [] red = Inr red"
| "reducts_sizes df attrs full (r # rs) red =
     (case reducts_combos df full (combinations attrs r) red of
        Inl e \<Rightarrow> Inl e
      | Inr red' \<Rightarrow> reducts_sizes df attrs full rs red')"

definition reducts :: "dataframe \<Rightarrow> string list \<Rightarrow> error + string list list" where
  "reducts df attrs =
     (case equivalence_classes df attrs of
        Inl e \<Rightarrow> Inl e
      | Inr full \<Rightarrow> reducts_sizes df attrs full [1 ..< length attrs + 1] [])"

section \<open>Rules\<close>

text \<open>\<^verbatim>\<open>Series.unique()\<close>: the distinct values in order of first appearance.\<close>

fun unique :: "'a list \<Rightarrow> 'a list" where
  "unique [] = []"
| "unique (x # xs) = x # filter (\<lambda>y. y \<noteq> x) (unique xs)"

fun join :: "string \<Rightarrow> string list \<Rightarrow> string" where
  "join sep [] = []"
| "join sep [x] = x"
| "join sep (x # y # ys) = x @ sep @ join sep (y # ys)"

definition rule_text :: "string list \<Rightarrow> string list \<Rightarrow> string \<Rightarrow> string" where
  "rule_text attrs vals decision =
     ''IF '' @ join '' AND '' (map2 (\<lambda>a v. a @ ''='' @ v) attrs vals) @
     '' THEN Decision = '' @ decision"

fun rules_lower ::
  "dataframe \<Rightarrow> string list \<Rightarrow> string \<Rightarrow> nat list \<Rightarrow> string list \<Rightarrow> error + string list" where
  "rules_lower df attrs decision [] rules = Inr rules"
| "rules_lower df attrs decision (idx # rest) rules =
     (case map_err (cell df idx) attrs of
        Inl e \<Rightarrow> Inl e
      | Inr vals \<Rightarrow> rules_lower df attrs decision rest (rules @ [rule_text attrs vals decision]))"

fun rules_decisions ::
  "dataframe \<Rightarrow> string list \<Rightarrow> string list \<Rightarrow> string list \<Rightarrow> error + string list" where
  "rules_decisions df attrs [] rules = Inr rules"
| "rules_decisions df attrs (decision # rest) rules =
     (case lower_upper df attrs decision of
        Inl e \<Rightarrow> Inl e
      | Inr (lower, upper) \<Rightarrow>
          (case rules_lower df attrs decision lower rules of
             Inl e \<Rightarrow> Inl e
           | Inr rules' \<Rightarrow> rules_decisions df attrs rest rules'))"

definition extract_rules :: "dataframe \<Rightarrow> string list \<Rightarrow> error + string list" where
  "extract_rules df attrs =
     (case column df ''Decision'' of
        Inl e \<Rightarrow> Inl e
      | Inr decs \<Rightarrow>
          (case rules_decisions df attrs (unique decs) [] of
             Inl e \<Rightarrow> Inl e
           | Inr rules \<Rightarrow> Inr (sorted_list_of_set (set rules))))"

section \<open>Conflicts\<close>

text \<open>
  \<^verbatim>\<open>list(decs)\<close> lists a Python set in an order the language does not fix, so a conflict
  keeps the decisions as a set.
\<close>

fun io_loop ::
  "dataframe \<Rightarrow> nat list list \<Rightarrow> (nat list \<times> string set) list \<Rightarrow>
   error + (nat list \<times> string set) list" where
  "io_loop df [] conflicts = Inr conflicts"
| "io_loop df (cls # eq) conflicts =
     (case loc_decisions df cls of
        Inl e \<Rightarrow> Inl e
      | Inr ds \<Rightarrow>
          io_loop df eq (if card (set ds) > 1 then conflicts @ [(cls, set ds)] else conflicts))"

definition inconsistent_objects ::
  "dataframe \<Rightarrow> string list \<Rightarrow> error + (nat list \<times> string set) list" where
  "inconsistent_objects df attrs =
     (case equivalence_classes df attrs of
        Inl e \<Rightarrow> Inl e
      | Inr eq \<Rightarrow> io_loop df eq [])"

section \<open>Worked tables and proof vocabulary\<close>

text \<open>
  Two small tables: three objects over two attributes, the third differing in \<^verbatim>\<open>A2\<close> and in
  its decision; and two objects that agree on \<^verbatim>\<open>A1\<close> and disagree on the decision.
\<close>

definition table_xyz :: dataframe where
  "table_xyz = \<lparr>columns = [''A1'', ''A2'', ''Decision''],
     data = [[''x'', ''y'', ''P''], [''x'', ''y'', ''P''], [''x'', ''z'', ''N'']]\<rparr>"

definition table_conflict :: dataframe where
  "table_conflict = \<lparr>columns = [''A1'', ''Decision''], data = [[''x'', ''P''], [''x'', ''N'']]\<rparr>"

text \<open>
  The rest of this section is used in proofs only. On a valid table no lookup fails, and the
  cell of a row under a column is \<open>val_of\<close>; the key of a row is the list of its cells under
  the requested attributes.
\<close>

definition val_of :: "string list \<Rightarrow> string list \<Rightarrow> string \<Rightarrow> string" where
  "val_of cols row a = the (map_of (zip cols row) a)"

definition key_of :: "string list \<Rightarrow> string list \<Rightarrow> string list \<Rightarrow> string list" where
  "key_of cols attrs row = map (val_of cols row) attrs"

definition keys :: "dataframe \<Rightarrow> string list \<Rightarrow> string list list" where
  "keys df attrs = map (key_of (columns df) attrs) (data df)"

definition dec :: "dataframe \<Rightarrow> nat \<Rightarrow> string" where
  "dec df i = val_of (columns df) (data df ! i) ''Decision''"

text \<open>
  The loop of \<^verbatim>\<open>equivalence_classes\<close> over a list of keys, and what it computes: for every
  distinct key, in order of first appearance, the positions that carry it, in ascending order.
\<close>

definition grp :: "'k list \<Rightarrow> ('k \<times> nat list) list" where
  "grp ks = fold (\<lambda>(i, k). setdefault_append k i) (enumerate 0 ks) []"

definition members :: "'k list \<Rightarrow> 'k \<Rightarrow> nat list" where
  "members ks k = filter (\<lambda>i. ks ! i = k) [0 ..< length ks]"

definition classes :: "'k list \<Rightarrow> nat list list" where
  "classes ks = map (members ks) (unique ks)"

text \<open>
  A class is certain for a decision value when its rows carry that value only, possible when
  some row carries it. The two accumulators of \<^verbatim>\<open>lower_upper\<close> collect the certain and the
  possible classes.
\<close>

definition certain :: "dataframe \<Rightarrow> string \<Rightarrow> nat list \<Rightarrow> bool" where
  "certain df d c \<longleftrightarrow> dec df ` set c = {d}"

definition possible :: "dataframe \<Rightarrow> string \<Rightarrow> nat list \<Rightarrow> bool" where
  "possible df d c \<longleftrightarrow> d \<in> dec df ` set c"

definition lower_of :: "dataframe \<Rightarrow> string list \<Rightarrow> string \<Rightarrow> nat list" where
  "lower_of df attrs d = concat (filter (certain df d) (classes (keys df attrs)))"

definition upper_of :: "dataframe \<Rightarrow> string list \<Rightarrow> string \<Rightarrow> nat list" where
  "upper_of df attrs d = concat (filter (possible df d) (classes (keys df attrs)))"

definition lower_list :: "dataframe \<Rightarrow> string list \<Rightarrow> string \<Rightarrow> nat list" where
  "lower_list df attrs d = sorted_list_of_set (set (lower_of df attrs d))"

text \<open>The rule text of one row, and the order of texts: lexicographic, by character code.\<close>

definition rule_of :: "dataframe \<Rightarrow> string list \<Rightarrow> string \<Rightarrow> nat \<Rightarrow> string" where
  "rule_of df attrs d i = rule_text attrs (map (val_of (columns df) (data df ! i)) attrs) d"

definition text_less :: "string \<Rightarrow> string \<Rightarrow> bool" where
  "text_less a b \<longleftrightarrow> (a, b) \<in> lexord {(u, v). (of_char u :: nat) < of_char v}"

section \<open>Properties\<close>

subsection \<open>Lookups that cannot fail\<close>

lemma map_err_pure: "(\<And>x. x \<in> set xs \<Longrightarrow> f x = Inr (g x)) \<Longrightarrow> map_err f xs = Inr (map g xs)"
  by (induction xs) simp_all

lemma row_get_pure:
  assumes "length row = length cols" and "a \<in> set cols"
  shows "row_get cols row a = Inr (val_of cols row a)"
proof -
  from assms obtain v where "map_of (zip cols row) a = Some v"
    using map_of_zip_is_Some [of cols row a] by auto
  then show ?thesis by (simp add: row_get_def val_of_def)
qed

lemma unique_snoc: "unique (xs @ [x]) = (if x \<in> set xs then unique xs else unique xs @ [x])"
  by (induction xs) auto

lemma set_unique [simp]: "set (unique xs) = set xs"
  by (induction xs) auto

lemma distinct_unique [simp]: "distinct (unique xs)"
  by (induction xs) auto

subsection \<open>The groups in closed form\<close>

lemma grp_snoc: "grp (ks @ [k]) = setdefault_append k (length ks) (grp ks)"
  by (simp add: grp_def enumerate_append_eq)

lemma members_snoc:
  "members (ks @ [k]) u = members ks u @ (if k = u then [length ks] else [])"
proof -
  have "filter (\<lambda>i. (ks @ [k]) ! i = u) [0 ..< length ks] = filter (\<lambda>i. ks ! i = u) [0 ..< length ks]"
    by (rule filter_cong) (simp_all add: nth_append)
  then show ?thesis by (simp add: members_def)
qed

lemma members_empty_iff: "members ks k = [] \<longleftrightarrow> k \<notin> set ks"
  by (auto simp: members_def filter_empty_conv in_set_conv_nth)

lemma set_members: "set (members ks k) = {i. i < length ks \<and> ks ! i = k}"
  by (auto simp: members_def)

lemma setdefault_append_map:
  "distinct us \<Longrightarrow>
   setdefault_append k i (map (\<lambda>u. (u, F u)) us) =
     (if k \<in> set us then map (\<lambda>u. (u, if u = k then F u @ [i] else F u)) us
      else map (\<lambda>u. (u, F u)) us @ [(k, [i])])"
  by (induction us) auto

lemma grp_closed: "grp ks = map (\<lambda>k. (k, members ks k)) (unique ks)"
proof (induction ks rule: rev_induct)
  case Nil
  show ?case by (simp add: grp_def)
next
  case (snoc k ks)
  show ?case
  proof (cases "k \<in> set ks")
    case True
    then show ?thesis
      by (simp add: grp_snoc snoc.IH setdefault_append_map unique_snoc members_snoc)
  next
    case False
    then have "members ks k = []" by (simp add: members_empty_iff)
    with False show ?thesis
      by (auto simp: grp_snoc snoc.IH setdefault_append_map unique_snoc members_snoc)
  qed
qed

lemma classes_grp: "map snd (grp ks) = classes ks"
  by (simp add: grp_closed classes_def comp_def)

lemma ec_loop_pure:
  assumes "set attrs \<subseteq> set cols"
  shows "(\<And>row. row \<in> set rows \<Longrightarrow> length row = length cols) \<Longrightarrow>
    ec_loop cols attrs (enumerate n rows) g =
      Inr (fold (\<lambda>(i, k). setdefault_append k i) (enumerate n (map (key_of cols attrs) rows)) g)"
proof (induction rows arbitrary: n g)
  case Nil
  show ?case by simp
next
  case (Cons row rows)
  have "map_err (row_get cols row) attrs = Inr (key_of cols attrs row)"
    unfolding key_of_def using assms Cons.prems [of row]
    by (intro map_err_pure row_get_pure) auto
  then show ?case using Cons by simp
qed

lemma valid_table_rows: "valid_table df \<Longrightarrow> row \<in> set (data df) \<Longrightarrow> length row = length (columns df)"
  by (simp add: valid_table_def list_all_iff)

lemma valid_table_Decision: "valid_table df \<Longrightarrow> ''Decision'' \<in> set (columns df)"
  by (metis valid_table_def last_in_set)

lemma equivalence_classes_pure:
  assumes "valid_table df" and "set attrs \<subseteq> set (columns df)"
  shows "equivalence_classes df attrs = Inr (classes (keys df attrs))"
  using ec_loop_pure [OF assms(2), of "data df" 0 "[]"] valid_table_rows [OF assms(1)]
  by (simp add: equivalence_classes_def keys_def classes_grp [symmetric] grp_def)

lemma length_keys [simp]: "length (keys df attrs) = length (data df)"
  by (simp add: keys_def)

subsection \<open>The classes are a partition\<close>

lemma classes_nonempty: "[] \<notin> set (classes ks)"
  by (auto simp: classes_def members_empty_iff dest: sym)

lemma members_inj: "k \<in> set ks \<Longrightarrow> members ks k = members ks k' \<Longrightarrow> k = k'"
proof -
  assume k: "k \<in> set ks" and eq: "members ks k = members ks k'"
  from k obtain i where "i < length ks" "ks ! i = k" by (auto simp: in_set_conv_nth)
  then have "i \<in> set (members ks k)" by (simp add: set_members)
  with eq have "i \<in> set (members ks k')" by simp
  with \<open>ks ! i = k\<close> show ?thesis by (simp add: set_members)
qed

lemma distinct_concat_classes: "distinct (concat (classes ks))"
proof (rule distinct_concat)
  show "distinct (classes ks)"
    unfolding classes_def by (auto simp: distinct_map inj_on_def intro: members_inj)
next
  fix ys assume "ys \<in> set (classes ks)"
  then show "distinct ys" by (auto simp: classes_def members_def)
next
  fix ys zs assume "ys \<in> set (classes ks)" "zs \<in> set (classes ks)" "ys \<noteq> zs"
  then show "set ys \<inter> set zs = {}" by (auto simp: classes_def set_members)
qed

lemma set_concat_classes: "set (concat (classes ks)) = {0 ..< length ks}"
  by (auto simp: classes_def set_members)

lemma class_of_index:
  "i < length ks \<Longrightarrow> members ks (ks ! i) \<in> set (classes ks) \<and> i \<in> set (members ks (ks ! i))"
  by (simp add: classes_def set_members)

lemma class_cases:
  "c \<in> set (classes ks) \<Longrightarrow> \<exists>i < length ks. c = members ks (ks ! i)"
  by (auto simp: classes_def in_set_conv_nth)

subsection \<open>The list of classes is canonical\<close>

lemma sorted_members: "sorted_wrt (<) (members ks k)"
  by (simp add: members_def sorted_wrt_filter)

lemma hd_members_snoc: "u \<in> set ks \<Longrightarrow> hd (members (ks @ [k]) u) = hd (members ks u)"
  by (simp add: members_snoc members_empty_iff)

lemma sorted_heads: "sorted_wrt (<) (map hd (classes ks))"
proof (induction ks rule: rev_induct)
  case Nil
  show ?case by (simp add: classes_def)
next
  case (snoc k ks)
  have old: "map (\<lambda>u. hd (members (ks @ [k]) u)) (unique ks) = map hd (classes ks)"
    by (simp add: classes_def hd_members_snoc)
  show ?case
  proof (cases "k \<in> set ks")
    case True
    then have "map hd (classes (ks @ [k])) = map (\<lambda>u. hd (members (ks @ [k]) u)) (unique ks)"
      by (simp add: classes_def unique_snoc comp_def)
    then show ?thesis using snoc.IH by (simp only: old)
  next
    case False
    have less: "h < length ks" if "h \<in> set (map hd (classes ks))" for h
    proof -
      from that obtain c where c: "c \<in> set (classes ks)" "h = hd c" by auto
      with classes_nonempty [of ks] have "h \<in> set c" by (cases c) auto
      with c(1) have "h \<in> set (concat (classes ks))" by auto
      then show ?thesis unfolding set_concat_classes by simp
    qed
    from False have "members ks k = []" by (simp add: members_empty_iff)
    with False have "map hd (classes (ks @ [k])) =
        map (\<lambda>u. hd (members (ks @ [k]) u)) (unique ks) @ [length ks]"
      by (simp add: classes_def unique_snoc comp_def members_snoc)
    then have "map hd (classes (ks @ [k])) = map hd (classes ks) @ [length ks]"
      by (simp only: old)
    then show ?thesis using snoc.IH less by (simp add: sorted_wrt_append)
  qed
qed

lemma strict_sorted_canonical:
  fixes c :: "nat list"
  shows "sorted_wrt (<) c \<Longrightarrow> sorted_list_of_set (set c) = c"
  by (simp add: strict_sorted_iff sorted_list_of_set.idem_if_sorted_distinct)

lemma canonical_unique:
  fixes X Y :: "nat list list"
  assumes X: "\<And>c. c \<in> set X \<Longrightarrow> sorted_wrt (<) c" "sorted_wrt (<) (map hd X)"
    and Y: "\<And>c. c \<in> set Y \<Longrightarrow> sorted_wrt (<) c" "sorted_wrt (<) (map hd Y)"
    and eq: "set (map set X) = set (map set Y)"
  shows "X = Y"
proof -
  have "set X = sorted_list_of_set ` set ` set X"
    using X(1) by (force simp: strict_sorted_canonical image_iff)
  moreover have "set Y = sorted_list_of_set ` set ` set Y"
    using Y(1) by (force simp: strict_sorted_canonical image_iff)
  ultimately have sets: "set X = set Y" using eq by simp
  then have "map hd X = map hd Y"
    using X(2) Y(2) by (intro strict_sorted_equal) simp_all
  moreover have "inj_on hd (set X \<union> set Y)"
    using X(2) sets by (simp add: strict_sorted_iff distinct_map)
  ultimately show ?thesis by (simp add: inj_on_map_eq_map)
qed

lemma classes_canonical:
  "set (map set (classes ks)) = set (map set (classes ks')) \<Longrightarrow> classes ks = classes ks'"
proof (rule canonical_unique)
  fix c assume "c \<in> set (classes ks)"
  then show "sorted_wrt (<) c" by (auto simp: classes_def sorted_members)
next
  fix c assume "c \<in> set (classes ks')"
  then show "sorted_wrt (<) c" by (auto simp: classes_def sorted_members)
qed (simp_all add: sorted_heads)

lemma disjoint_by_position:
  assumes "distinct (concat xss)" and "[] \<notin> set xss"
    and "i < length xss" and "j < length xss" and "i \<noteq> j"
  shows "set (xss ! i) \<inter> set (xss ! j) = {}"
proof -
  from assms(1,2) have d: "distinct xss" by (simp add: distinct_concat_iff removeAll_id)
  with assms(3-5) have "xss ! i \<noteq> xss ! j" by (simp add: nth_eq_iff_index_eq)
  with assms(1,3,4) show ?thesis by (simp add: distinct_concat_iff)
qed

lemma keys_nth:
  "i < length (data df) \<Longrightarrow> keys df attrs ! i = map (val_of (columns df) (data df ! i)) attrs"
  by (simp add: keys_def key_of_def)

lemma keys_mono:
  assumes "set sub \<subseteq> set attrs" and "i < length (data df)" and "j < length (data df)"
    and "keys df attrs ! j = keys df attrs ! i"
  shows "keys df sub ! j = keys df sub ! i"
proof -
  let ?f = "\<lambda>k. val_of (columns df) (data df ! k)"
  from assms(2-4) have "map (?f j) attrs = map (?f i) attrs" by (simp only: keys_nth)
  then have "\<forall>a \<in> set attrs. ?f j a = ?f i a" by (simp only: map_eq_conv)
  with assms(1) have "\<forall>a \<in> set sub. ?f j a = ?f i a" by blast
  then have "map (?f j) sub = map (?f i) sub" by (simp only: map_eq_conv)
  with assms(2,3) show ?thesis by (simp only: keys_nth)
qed

subsection \<open>Unknown names\<close>

lemma error_is_KeyError: "(e :: error) = KeyError"
  by (cases e) simp

lemma map_err_fails: "x \<in> set xs \<Longrightarrow> f x = Inl e \<Longrightarrow> map_err f xs = Inl KeyError"
proof (induction xs)
  case Nil
  then show ?case by simp
next
  case (Cons y ys)
  show ?case
  proof (cases "f y")
    case (Inl e')
    then show ?thesis by (simp add: error_is_KeyError [of e'])
  next
    case (Inr v)
    with Cons.prems have "x \<in> set ys" by auto
    with Cons have "map_err f ys = Inl KeyError" by simp
    with Inr show ?thesis by simp
  qed
qed

lemma row_get_unknown: "a \<notin> set cols \<Longrightarrow> row_get cols row a = Inl KeyError"
proof -
  assume "a \<notin> set cols"
  then have "a \<notin> fst ` set (zip cols row)" by (auto dest: set_zip_leftD)
  then have "map_of (zip cols row) a = None" by (simp add: map_of_eq_None_iff)
  then show ?thesis by (simp add: row_get_def)
qed

subsection \<open>The approximations in closed form\<close>

lemma cell_pure:
  assumes "valid_table df" and "i < length (data df)" and "a \<in> set (columns df)"
  shows "cell df i a = Inr (val_of (columns df) (data df ! i) a)"
proof -
  from assms(2) have "data df ! i \<in> set (data df)" by simp
  with assms(1) have "length (data df ! i) = length (columns df)" by (rule valid_table_rows)
  then show ?thesis using assms(2,3) by (simp add: cell_def row_get_pure)
qed

lemma loc_decisions_pure:
  assumes "valid_table df" and "\<And>i. i \<in> set cls \<Longrightarrow> i < length (data df)"
  shows "loc_decisions df cls = Inr (map (dec df) cls)"
  unfolding loc_decisions_def dec_def
  by (rule map_err_pure) (simp add: cell_pure assms valid_table_Decision)

lemma certain_possible: "certain df d c \<Longrightarrow> possible df d c"
  by (simp add: certain_def possible_def)

lemma lu_loop_pure:
  assumes "valid_table df"
  shows "(\<And>c i. c \<in> set eq \<Longrightarrow> i \<in> set c \<Longrightarrow> i < length (data df)) \<Longrightarrow>
    lu_loop df d eq lower upper =
      Inr (lower @ concat (filter (certain df d) eq), upper @ concat (filter (possible df d) eq))"
proof (induction eq arbitrary: lower upper)
  case Nil
  show ?case by simp
next
  case (Cons c eq)
  have loc: "loc_decisions df c = Inr (map (dec df) c)"
    using assms Cons.prems [of c] by (intro loc_decisions_pure) simp_all
  have IH: "lu_loop df d eq l u =
      Inr (l @ concat (filter (certain df d) eq), u @ concat (filter (possible df d) eq))" for l u
    by (rule Cons.IH) (rule Cons.prems, simp_all)
  show ?case
  proof (cases "certain df d c")
    case True
    then have "possible df d c" by (rule certain_possible)
    with True show ?thesis using True by (simp add: loc IH certain_def [symmetric])
  next
    case False
    then show ?thesis
      by (cases "possible df d c")
         (simp_all add: loc IH certain_def [symmetric] possible_def [symmetric])
  qed
qed

lemma classes_bound: "c \<in> set (classes ks) \<Longrightarrow> i \<in> set c \<Longrightarrow> i < length ks"
proof -
  assume "c \<in> set (classes ks)" "i \<in> set c"
  then have "i \<in> set (concat (classes ks))" by auto
  then show ?thesis unfolding set_concat_classes by simp
qed

lemma classes_disjoint:
  "c \<in> set (classes ks) \<Longrightarrow> c' \<in> set (classes ks) \<Longrightarrow> c \<noteq> c' \<Longrightarrow> set c \<inter> set c' = {}"
  using distinct_concat_classes [of ks] by (simp add: distinct_concat_iff)

lemma lower_upper_pure:
  assumes "valid_table df" and "set attrs \<subseteq> set (columns df)"
  shows "lower_upper df attrs d =
    Inr (sorted_list_of_set (set (lower_of df attrs d)), sorted_list_of_set (set (upper_of df attrs d)))"
proof -
  have "lu_loop df d (classes (keys df attrs)) [] [] = Inr (lower_of df attrs d, upper_of df attrs d)"
    unfolding lower_of_def upper_of_def
    using lu_loop_pure [OF assms(1), of "classes (keys df attrs)" d "[]" "[]"]
      classes_bound [of _ "keys df attrs"]
    by simp
  then show ?thesis
    by (simp add: lower_upper_def equivalence_classes_pure [OF assms])
qed

lemma in_lower_of:
  "i \<in> set (lower_of df attrs d) \<longleftrightarrow> (\<exists>c \<in> set (classes (keys df attrs)). certain df d c \<and> i \<in> set c)"
  by (auto simp: lower_of_def)

lemma in_upper_of:
  "i \<in> set (upper_of df attrs d) \<longleftrightarrow> (\<exists>c \<in> set (classes (keys df attrs)). possible df d c \<and> i \<in> set c)"
  by (auto simp: upper_of_def)

lemma lower_sub_upper: "set (lower_of df attrs d) \<subseteq> set (upper_of df attrs d)"
proof
  fix i assume "i \<in> set (lower_of df attrs d)"
  then obtain c where "c \<in> set (classes (keys df attrs))" "certain df d c" "i \<in> set c"
    unfolding in_lower_of by blast
  then show "i \<in> set (upper_of df attrs d)"
    unfolding in_upper_of using certain_possible by blast
qed

lemma class_sub_lower:
  "c \<in> set (classes (keys df attrs)) \<Longrightarrow> certain df d c \<Longrightarrow> set c \<subseteq> set (lower_of df attrs d)"
  by (auto simp: in_lower_of)

lemma class_sub_upper:
  "c \<in> set (classes (keys df attrs)) \<Longrightarrow> possible df d c \<Longrightarrow> set c \<subseteq> set (upper_of df attrs d)"
  by (auto simp: in_upper_of)

lemma class_off_lower:
  assumes "c \<in> set (classes (keys df attrs))" and "\<not> certain df d c"
  shows "set c \<inter> set (lower_of df attrs d) = {}"
proof -
  have False if "i \<in> set c" "i \<in> set (lower_of df attrs d)" for i
  proof -
    from that(2) obtain c' where c': "c' \<in> set (classes (keys df attrs))" "certain df d c'" "i \<in> set c'"
      unfolding in_lower_of by blast
    with assms(2) have "c \<noteq> c'" by blast
    from classes_disjoint [OF assms(1) c'(1) this] that(1) c'(3) show False by blast
  qed
  then show ?thesis by blast
qed

lemma class_off_upper:
  assumes "c \<in> set (classes (keys df attrs))" and "\<not> possible df d c"
  shows "set c \<inter> set (upper_of df attrs d) = {}"
proof -
  have False if "i \<in> set c" "i \<in> set (upper_of df attrs d)" for i
  proof -
    from that(2) obtain c' where c': "c' \<in> set (classes (keys df attrs))" "possible df d c'" "i \<in> set c'"
      unfolding in_upper_of by blast
    with assms(2) have "c \<noteq> c'" by blast
    from classes_disjoint [OF assms(1) c'(1) this] that(1) c'(3) show False by blast
  qed
  then show ?thesis by blast
qed

lemma upper_sub_universe: "set (upper_of df attrs d) \<subseteq> (\<Union>c \<in> set (classes (keys df attrs)). set c)"
  by (auto simp: in_upper_of)

subsection \<open>Accuracy and the decisions of the table\<close>

lemma accuracy_facts:
  assumes d: "distinct lower" "distinct upper" and sub: "set lower \<subseteq> set upper"
  shows "0 \<le> accuracy lower upper" and "accuracy lower upper \<le> 1"
    and "upper = [] \<Longrightarrow> accuracy lower upper = 0"
    and "upper \<noteq> [] \<Longrightarrow> accuracy lower upper = 1 \<longleftrightarrow> boundary lower upper = []"
proof -
  have le: "length lower \<le> length upper"
    using card_mono [OF _ sub] d by (simp add: distinct_card)
  show "0 \<le> accuracy lower upper" by (simp add: accuracy_def)
  show "accuracy lower upper \<le> 1" using le by (simp add: accuracy_def)
  show "upper = [] \<Longrightarrow> accuracy lower upper = 0" by (simp add: accuracy_def)
  assume ne: "upper \<noteq> []"
  then have "accuracy lower upper = 1 \<longleftrightarrow> length lower = length upper"
    by (auto simp: accuracy_def)
  also have "\<dots> \<longleftrightarrow> card (set lower) = card (set upper)"
    using d by (simp add: distinct_card)
  also have "\<dots> \<longleftrightarrow> set lower = set upper"
    using card_subset_eq [OF _ sub] by auto
  also have "\<dots> \<longleftrightarrow> set upper - set lower = {}"
    using sub by blast
  also have "\<dots> \<longleftrightarrow> boundary lower upper = []"
    by (simp add: boundary_def sorted_list_of_set_eq_Nil_iff)
  finally show "accuracy lower upper = 1 \<longleftrightarrow> boundary lower upper = []" .
qed

lemma column_Decision_pure:
  assumes "valid_table df"
  shows "column df ''Decision'' = Inr (map (dec df) [0 ..< length (data df)])"
proof -
  have "map_err (\<lambda>row. row_get (columns df) row ''Decision'') (data df) =
      Inr (map (\<lambda>row. val_of (columns df) row ''Decision'') (data df))"
    by (rule map_err_pure) (simp add: row_get_pure valid_table_rows [OF assms] valid_table_Decision [OF assms])
  moreover have "map (\<lambda>row. val_of (columns df) row ''Decision'') (data df) =
      map (dec df) [0 ..< length (data df)]"
    by (rule nth_equalityI) (simp_all add: dec_def)
  ultimately show ?thesis
    by (simp add: column_def valid_table_Decision [OF assms])
qed

lemma upper_nonempty:
  assumes "i < length (data df)"
  shows "i \<in> set (upper_of df attrs (dec df i))"
proof -
  let ?ks = "keys df attrs"
  from assms have i: "i < length ?ks" by simp
  have "members ?ks (?ks ! i) \<in> set (classes ?ks)" "i \<in> set (members ?ks (?ks ! i))"
    using class_of_index [OF i] by simp_all
  moreover from this(2) have "possible df (dec df i) (members ?ks (?ks ! i))"
    unfolding possible_def by (rule imageI)
  ultimately show ?thesis unfolding in_upper_of by blast
qed

subsection \<open>Conflicts\<close>

lemma io_loop_pure:
  assumes "valid_table df"
  shows "(\<And>c i. c \<in> set eq \<Longrightarrow> i \<in> set c \<Longrightarrow> i < length (data df)) \<Longrightarrow>
    io_loop df eq conflicts =
      Inr (conflicts @ map (\<lambda>c. (c, dec df ` set c)) (filter (\<lambda>c. card (dec df ` set c) > 1) eq))"
proof (induction eq arbitrary: conflicts)
  case Nil
  show ?case by simp
next
  case (Cons c eq)
  have loc: "loc_decisions df c = Inr (map (dec df) c)"
    using assms Cons.prems [of c] by (intro loc_decisions_pure) simp_all
  have IH: "io_loop df eq acc =
      Inr (acc @ map (\<lambda>c. (c, dec df ` set c)) (filter (\<lambda>c. card (dec df ` set c) > 1) eq))" for acc
    by (rule Cons.IH) (rule Cons.prems, simp_all)
  show ?case by (simp add: loc IH)
qed

lemma inconsistent_objects_pure:
  assumes "valid_table df" and "set attrs \<subseteq> set (columns df)"
  shows "inconsistent_objects df attrs =
    Inr (map (\<lambda>c. (c, dec df ` set c))
          (filter (\<lambda>c. card (dec df ` set c) > 1) (classes (keys df attrs))))"
  using io_loop_pure [OF assms(1), of "classes (keys df attrs)" "[]"]
    classes_bound [of _ "keys df attrs"]
  by (simp add: inconsistent_objects_def equivalence_classes_pure [OF assms])

lemma single_decision: "finite S \<Longrightarrow> card S \<le> 1 \<Longrightarrow> d \<in> S \<Longrightarrow> S = {d}"
proof -
  assume "finite S" "card S \<le> 1" and d: "d \<in> S"
  then have "\<forall>a \<in> S. \<forall>b \<in> S. a = b" by (simp add: card_le_Suc0_iff_eq)
  with d show "S = {d}" by blast
qed

lemma homogeneous_iff:
  fixes df attrs
  defines "G \<equiv> classes (keys df attrs)"
  shows "(\<forall>c \<in> set G. card (dec df ` set c) \<le> 1) \<longleftrightarrow>
         (\<forall>i < length (data df). set (lower_of df attrs (dec df i)) = set (upper_of df attrs (dec df i)))"
proof
  assume hom: "\<forall>c \<in> set G. card (dec df ` set c) \<le> 1"
  show "\<forall>i < length (data df). set (lower_of df attrs (dec df i)) = set (upper_of df attrs (dec df i))"
  proof (intro allI impI equalityI lower_sub_upper subsetI)
    fix i j assume "j \<in> set (upper_of df attrs (dec df i))"
    then obtain c where c: "c \<in> set G" "possible df (dec df i) c" "j \<in> set c"
      unfolding in_upper_of G_def by blast
    from hom c(1) have "card (dec df ` set c) \<le> 1" by blast
    with c(2) have "certain df (dec df i) c"
      unfolding certain_def possible_def by (intro single_decision) simp_all
    with c(1,3) show "j \<in> set (lower_of df attrs (dec df i))"
      unfolding in_lower_of G_def by blast
  qed
next
  assume eq: "\<forall>i < length (data df). set (lower_of df attrs (dec df i)) = set (upper_of df attrs (dec df i))"
  show "\<forall>c \<in> set G. card (dec df ` set c) \<le> 1"
  proof
    fix c assume c: "c \<in> set G"
    with classes_nonempty [of "keys df attrs"] have "c \<noteq> []" unfolding G_def by blast
    then obtain i where i: "i \<in> set c" by (cases c) auto
    with c have n: "i < length (data df)"
      using classes_bound [of c "keys df attrs" i] unfolding G_def by simp
    have "possible df (dec df i) c" unfolding possible_def using i by (rule imageI)
    with c have "set c \<subseteq> set (upper_of df attrs (dec df i))"
      unfolding G_def by (rule class_sub_upper)
    with i eq n have "i \<in> set (lower_of df attrs (dec df i))" by blast
    with i class_off_lower [of c df attrs "dec df i"] c have "certain df (dec df i) c"
      unfolding G_def by blast
    then show "card (dec df ` set c) \<le> 1" by (simp add: certain_def)
  qed
qed

lemma lower_upper_sets:
  assumes "valid_table df" and "set attrs \<subseteq> set (columns df)"
  obtains lower upper where "lower_upper df attrs d = Inr (lower, upper)"
    and "set lower = set (lower_of df attrs d)" and "set upper = set (upper_of df attrs d)"
    and "sorted lower" and "distinct lower" and "sorted upper" and "distinct upper"
proof
  show "lower_upper df attrs d =
      Inr (sorted_list_of_set (set (lower_of df attrs d)), sorted_list_of_set (set (upper_of df attrs d)))"
    using assms by (rule lower_upper_pure)
qed simp_all

subsection \<open>Combinations and reducts\<close>

lemma combinations_too_long: "length xs < r \<Longrightarrow> combinations xs r = []"
proof (induction xs arbitrary: r)
  case Nil
  then show ?case by (cases r) simp_all
next
  case (Cons x xs)
  then show ?case by (cases r) simp_all
qed

lemma combinations_full: "combinations xs (length xs) = [xs]"
  by (induction xs) (simp_all add: combinations_too_long)

lemma in_combinations: "ys \<in> set (combinations xs r) \<longleftrightarrow> subseq ys xs \<and> length ys = r"
proof (induction xs arbitrary: r ys)
  case Nil
  show ?case by (cases r) auto
next
  case (Cons x xs)
  show ?case
  proof (cases r)
    case 0
    then show ?thesis by auto
  next
    case (Suc r')
    show ?thesis
    proof (cases ys)
      case Nil
      then show ?thesis by (auto simp: Suc Cons.IH)
    next
      case (Cons y ys')
      show ?thesis
      proof (cases "y = x")
        case True
        have "subseq (x # ys') xs \<Longrightarrow> subseq ys' xs" by (rule subseq_Cons')
        then show ?thesis unfolding Suc Cons True by (auto simp: Cons.IH)
      next
        case False
        then show ?thesis unfolding Suc Cons by (auto simp: Cons.IH)
      qed
    qed
  qed
qed

lemma in_all_combinations:
  "ys \<in> set (concat (map (combinations xs) [1 ..< length xs + 1])) \<longleftrightarrow> ys \<noteq> [] \<and> subseq ys xs"
proof -
  have "ys \<in> set (concat (map (combinations xs) [1 ..< length xs + 1])) \<longleftrightarrow>
      (\<exists>r. 1 \<le> r \<and> r \<le> length xs \<and> subseq ys xs \<and> length ys = r)"
    by (auto simp: in_combinations)
  also have "\<dots> \<longleftrightarrow> ys \<noteq> [] \<and> subseq ys xs"
    using list_emb_length [of "(=)" ys xs] by (cases ys) auto
  finally show ?thesis .
qed

lemma subseq_columns: "subseq ys xs \<Longrightarrow> set xs \<subseteq> C \<Longrightarrow> set ys \<subseteq> C"
  using list_emb_set [of "(=)" ys xs] by blast

lemma reducts_combos_pure:
  assumes "valid_table df"
  shows "(\<And>c. c \<in> set cs \<Longrightarrow> set c \<subseteq> set (columns df)) \<Longrightarrow>
    reducts_combos df full cs red = Inr (red @ filter (\<lambda>c. classes (keys df c) = full) cs)"
proof (induction cs arbitrary: red)
  case Nil
  show ?case by simp
next
  case (Cons c cs)
  have "set c \<subseteq> set (columns df)" by (rule Cons.prems) simp
  with assms have ec: "equivalence_classes df c = Inr (classes (keys df c))"
    by (rule equivalence_classes_pure)
  have IH: "reducts_combos df full cs acc =
      Inr (acc @ filter (\<lambda>c. classes (keys df c) = full) cs)" for acc
    by (rule Cons.IH) (rule Cons.prems, simp)
  show ?case by (simp add: ec IH)
qed

lemma reducts_sizes_pure:
  assumes "valid_table df" and "set attrs \<subseteq> set (columns df)"
  shows "reducts_sizes df attrs full rs red =
    Inr (red @ filter (\<lambda>c. classes (keys df c) = full) (concat (map (combinations attrs) rs)))"
proof (induction rs arbitrary: red)
  case Nil
  show ?case by simp
next
  case (Cons r rs)
  have "set c \<subseteq> set (columns df)" if "c \<in> set (combinations attrs r)" for c
  proof -
    from that have "subseq c attrs" by (simp add: in_combinations)
    then show ?thesis using assms(2) by (rule subseq_columns)
  qed
  then have "reducts_combos df full (combinations attrs r) red =
      Inr (red @ filter (\<lambda>c. classes (keys df c) = full) (combinations attrs r))"
    by (rule reducts_combos_pure [OF assms(1)])
  then show ?case by (simp add: Cons.IH)
qed

lemma reducts_pure:
  assumes "valid_table df" and "set attrs \<subseteq> set (columns df)"
  shows "reducts df attrs =
    Inr (filter (\<lambda>c. classes (keys df c) = classes (keys df attrs))
          (concat (map (combinations attrs) [1 ..< length attrs + 1])))"
  by (simp add: reducts_def equivalence_classes_pure [OF assms] reducts_sizes_pure [OF assms])

lemma in_reducts:
  "c \<in> set (filter (\<lambda>c. classes (keys df c) = full)
      (concat (map (combinations attrs) [1 ..< length attrs + 1]))) \<longleftrightarrow>
   c \<noteq> [] \<and> subseq c attrs \<and> classes (keys df c) = full"
  unfolding set_filter mem_Collect_eq in_all_combinations by blast

lemma classes_eq_iff:
  "classes ks = classes ks' \<longleftrightarrow> set (map set (classes ks)) = set (map set (classes ks'))"
  using classes_canonical [of ks ks'] by auto

lemma set_classes_image:
  "set ` set (classes ks) = (\<lambda>i. {j. j < length ks \<and> ks ! j = ks ! i}) ` {0 ..< length ks}"
proof -
  have "set ` set (classes ks) = (\<lambda>k. {j. j < length ks \<and> ks ! j = k}) ` set ks"
    by (simp add: classes_def image_image set_members)
  also have "set ks = (\<lambda>i. ks ! i) ` {0 ..< length ks}"
    by (auto simp: in_set_conv_nth)
  finally show ?thesis by (simp add: image_image)
qed

lemma same_class_iff:
  assumes "i < length ks" and "j < length ks"
  shows "(\<exists>c \<in> set (classes ks). i \<in> set c \<and> j \<in> set c) \<longleftrightarrow> ks ! i = ks ! j"
proof
  assume "\<exists>c \<in> set (classes ks). i \<in> set c \<and> j \<in> set c"
  then obtain k where "i \<in> set (members ks k)" "j \<in> set (members ks k)"
    by (auto simp: classes_def)
  then show "ks ! i = ks ! j" by (simp add: set_members)
next
  assume "ks ! i = ks ! j"
  with assms(2) have "j \<in> set (members ks (ks ! i))" by (simp add: set_members)
  with class_of_index [OF assms(1)] show "\<exists>c \<in> set (classes ks). i \<in> set c \<and> j \<in> set c"
    by blast
qed

lemma classes_kernel:
  assumes "length ks = length ks'"
  shows "classes ks = classes ks' \<longleftrightarrow>
    (\<forall>i < length ks. \<forall>j < length ks. ks ! i = ks ! j \<longleftrightarrow> ks' ! i = ks' ! j)"
proof
  assume eq: "classes ks = classes ks'"
  show "\<forall>i < length ks. \<forall>j < length ks. ks ! i = ks ! j \<longleftrightarrow> ks' ! i = ks' ! j"
  proof (intro allI impI)
    fix i j assume ij: "i < length ks" "j < length ks"
    have "ks ! i = ks ! j \<longleftrightarrow> (\<exists>c \<in> set (classes ks). i \<in> set c \<and> j \<in> set c)"
      using ij by (simp only: same_class_iff)
    also have "\<dots> \<longleftrightarrow> (\<exists>c \<in> set (classes ks'). i \<in> set c \<and> j \<in> set c)"
      by (simp only: eq)
    also have "\<dots> \<longleftrightarrow> ks' ! i = ks' ! j"
      using ij assms by (simp only: same_class_iff)
    finally show "ks ! i = ks ! j \<longleftrightarrow> ks' ! i = ks' ! j" .
  qed
next
  assume ker: "\<forall>i < length ks. \<forall>j < length ks. ks ! i = ks ! j \<longleftrightarrow> ks' ! i = ks' ! j"
  have "(\<lambda>i. {j. j < length ks \<and> ks ! j = ks ! i}) ` {0 ..< length ks} =
        (\<lambda>i. {j. j < length ks \<and> ks' ! j = ks' ! i}) ` {0 ..< length ks}"
    by (rule image_cong) (use ker in auto)
  then have "set ` set (classes ks) = set ` set (classes ks')"
    by (simp only: set_classes_image assms [symmetric])
  then show "classes ks = classes ks'"
    by (intro classes_canonical) simp
qed

lemma between_reducts:
  assumes r: "classes (keys df r) = classes (keys df attrs)"
    and sub: "set r \<subseteq> set c" "set c \<subseteq> set attrs"
  shows "classes (keys df c) = classes (keys df attrs)"
proof -
  let ?n = "length (data df)"
  have kr: "keys df r ! i = keys df r ! j \<longleftrightarrow> keys df attrs ! i = keys df attrs ! j"
    if "i < ?n" "j < ?n" for i j
    using r that classes_kernel [of "keys df r" "keys df attrs"] by simp
  have "keys df c ! i = keys df c ! j \<longleftrightarrow> keys df attrs ! i = keys df attrs ! j"
    if ij: "i < ?n" "j < ?n" for i j
  proof
    assume "keys df c ! i = keys df c ! j"
    then have "keys df r ! i = keys df r ! j"
      by (rule keys_mono [OF sub(1) ij(2,1)])
    then show "keys df attrs ! i = keys df attrs ! j" using kr ij by simp
  next
    assume "keys df attrs ! i = keys df attrs ! j"
    then show "keys df c ! i = keys df c ! j"
      by (rule keys_mono [OF sub(2) ij(2,1)])
  qed
  then show ?thesis
    using classes_kernel [of "keys df c" "keys df attrs"] by simp
qed

lemma member_nonempty: "x \<in> set xs \<Longrightarrow> xs \<noteq> []"
  by auto

subsection \<open>Rules\<close>

lemma lower_of_bound: "i \<in> set (lower_of df attrs d) \<Longrightarrow> i < length (data df)"
proof -
  assume "i \<in> set (lower_of df attrs d)"
  then obtain c where "c \<in> set (classes (keys df attrs))" "i \<in> set c"
    unfolding in_lower_of by blast
  then have "i < length (keys df attrs)" by (rule classes_bound)
  then show ?thesis by simp
qed

lemma rules_lower_pure:
  assumes "valid_table df" and "set attrs \<subseteq> set (columns df)"
  shows "(\<And>i. i \<in> set lower \<Longrightarrow> i < length (data df)) \<Longrightarrow>
    rules_lower df attrs d lower rules = Inr (rules @ map (rule_of df attrs d) lower)"
proof (induction lower arbitrary: rules)
  case Nil
  show ?case by simp
next
  case (Cons i lower)
  have i: "i < length (data df)" by (rule Cons.prems) simp
  have "cell df i a = Inr (val_of (columns df) (data df ! i) a)" if "a \<in> set attrs" for a
    using assms(1) i by (rule cell_pure) (use that assms(2) in blast)
  then have vals: "map_err (cell df i) attrs = Inr (map (val_of (columns df) (data df ! i)) attrs)"
    by (rule map_err_pure)
  have IH: "rules_lower df attrs d lower acc = Inr (acc @ map (rule_of df attrs d) lower)" for acc
    by (rule Cons.IH) (rule Cons.prems, simp)
  show ?case by (simp add: vals IH rule_of_def)
qed

lemma rules_decisions_pure:
  assumes "valid_table df" and "set attrs \<subseteq> set (columns df)"
  shows "rules_decisions df attrs ds rules =
    Inr (rules @ concat (map (\<lambda>d. map (rule_of df attrs d) (lower_list df attrs d)) ds))"
proof (induction ds arbitrary: rules)
  case Nil
  show ?case by simp
next
  case (Cons d ds)
  have lu: "lower_upper df attrs d =
      Inr (lower_list df attrs d, sorted_list_of_set (set (upper_of df attrs d)))"
    unfolding lower_list_def using assms by (rule lower_upper_pure)
  have "i < length (data df)" if "i \<in> set (lower_list df attrs d)" for i
    using that by (simp add: lower_list_def lower_of_bound)
  then have rl: "rules_lower df attrs d (lower_list df attrs d) rules =
      Inr (rules @ map (rule_of df attrs d) (lower_list df attrs d))"
    by (rule rules_lower_pure [OF assms])
  show ?case by (simp add: lu rl Cons.IH)
qed

lemma extract_rules_pure:
  assumes "valid_table df" and "set attrs \<subseteq> set (columns df)"
  shows "extract_rules df attrs =
    Inr (sorted_list_of_set (set (concat
      (map (\<lambda>d. map (rule_of df attrs d) (lower_list df attrs d))
        (unique (map (dec df) [0 ..< length (data df)]))))))"
  by (simp add: extract_rules_def column_Decision_pure [OF assms(1)] rules_decisions_pure [OF assms])

lemma text_less_iff: "text_less a b \<longleftrightarrow> a < b"
  by (simp add: text_less_def list_less_def less_char_def)

lemma strictly_increasing_text:
  "sorted rules \<Longrightarrow> distinct rules \<Longrightarrow> sorted_wrt text_less rules"
proof -
  assume "sorted rules" "distinct rules"
  then have "sorted_wrt (<) rules" by (simp add: strict_sorted_iff)
  moreover have "text_less = (<)" by (intro ext) (rule text_less_iff)
  ultimately show ?thesis by simp
qed

lemma concat_map_Nil: "concat (map f xs) = [] \<longleftrightarrow> (\<forall>x \<in> set xs. f x = [])"
  by (induction xs) auto

section \<open>The claims\<close>

text \<open>
  C1. On a valid table, \<^verbatim>\<open>reducts\<close> returns exactly the non-empty subsequences of the
  attribute list whose partition has the same groups, as sets of row identifiers, as the
  partition of the whole list. The test of line 66 compares two lists of lists; it decides
  equality of the sets of groups because \<^verbatim>\<open>equivalence_classes\<close> lists every group in
  ascending order and the groups by ascending first member. A subsequence that contains all
  names of a returned one is returned too.
\<close>

theorem reducts_exact:
  assumes "valid_table df" and "set attrs \<subseteq> set (columns df)"
  shows "\<exists>full red.
           equivalence_classes df attrs = Inr full \<and> reducts df attrs = Inr red \<and>
           (\<forall>combo. combo \<in> set red \<longleftrightarrow>
              combo \<noteq> [] \<and> subseq combo attrs \<and>
              (\<exists>p. equivalence_classes df combo = Inr p \<and> set (map set p) = set (map set full))) \<and>
           (\<forall>combo. subseq combo attrs \<longrightarrow>
              (\<exists>p. equivalence_classes df combo = Inr p \<and>
                 (p = full \<longleftrightarrow> set (map set p) = set (map set full)))) \<and>
           (\<forall>r combo. r \<in> set red \<and> set r \<subseteq> set combo \<and> subseq combo attrs \<longrightarrow>
              combo \<in> set red)"
proof -
  let ?full = "classes (keys df attrs)"
  let ?red = "filter (\<lambda>c. classes (keys df c) = ?full)
      (concat (map (combinations attrs) [1 ..< length attrs + 1]))"
  have full: "equivalence_classes df attrs = Inr ?full"
    using assms by (rule equivalence_classes_pure)
  have red: "reducts df attrs = Inr ?red"
    using assms by (rule reducts_pure)
  have ec: "equivalence_classes df combo = Inr (classes (keys df combo))"
    if "subseq combo attrs" for combo
    using assms(1) subseq_columns [OF that assms(2)] by (rule equivalence_classes_pure)
  have test: "\<forall>combo. subseq combo attrs \<longrightarrow>
      (\<exists>p. equivalence_classes df combo = Inr p \<and>
         (p = ?full \<longleftrightarrow> set (map set p) = set (map set ?full)))"
  proof (intro allI impI exI conjI)
    fix combo assume "subseq combo attrs"
    then show "equivalence_classes df combo = Inr (classes (keys df combo))" by (rule ec)
    show "classes (keys df combo) = ?full \<longleftrightarrow>
        set (map set (classes (keys df combo))) = set (map set ?full)"
      by (rule classes_eq_iff)
  qed
  have mem: "\<forall>combo. combo \<in> set ?red \<longleftrightarrow>
      combo \<noteq> [] \<and> subseq combo attrs \<and>
      (\<exists>p. equivalence_classes df combo = Inr p \<and> set (map set p) = set (map set ?full))"
  proof
    fix combo
    show "combo \<in> set ?red \<longleftrightarrow>
      combo \<noteq> [] \<and> subseq combo attrs \<and>
      (\<exists>p. equivalence_classes df combo = Inr p \<and> set (map set p) = set (map set ?full))"
    proof (cases "subseq combo attrs")
      case True
      have e: "(\<exists>p. equivalence_classes df combo = Inr p \<and>
            set (map set p) = set (map set ?full)) \<longleftrightarrow>
          classes (keys df combo) = ?full"
        by (simp only: ec [OF True] classes_eq_iff [of "keys df combo" "keys df attrs"]
            sum.inject simp_thms ex_simps)
      show ?thesis unfolding in_reducts e by (rule refl)
    next
      case False
      then show ?thesis unfolding in_reducts by simp
    qed
  qed
  have sup: "\<forall>r combo. r \<in> set ?red \<and> set r \<subseteq> set combo \<and> subseq combo attrs \<longrightarrow>
      combo \<in> set ?red"
  proof (intro allI impI, elim conjE)
    fix r combo
    assume "r \<in> set ?red" and sub: "set r \<subseteq> set combo" and c: "subseq combo attrs"
    then have r: "r \<noteq> []" "classes (keys df r) = ?full"
      unfolding in_reducts by simp_all
    from c have "set combo \<subseteq> set attrs" by (rule subseq_columns) simp
    with r(2) sub have "classes (keys df combo) = ?full" by (rule between_reducts)
    moreover from r(1) sub have "combo \<noteq> []" by auto
    ultimately show "combo \<in> set ?red" using c unfolding in_reducts by simp
  qed
  show ?thesis
    by (rule exI [of _ ?full], rule exI [of _ ?red]) (intro conjI full red mem test sup)
qed

theorem reducts_exact_witness:
  "valid_table table_xyz \<and> set [''A1'', ''A2''] \<subseteq> set (columns table_xyz) \<and>
   reducts table_xyz [''A1'', ''A2''] = Inr [[''A2''], [''A1'', ''A2'']] \<and>
   (\<exists>full red.
           equivalence_classes table_xyz [''A1'', ''A2''] = Inr full \<and>
           reducts table_xyz [''A1'', ''A2''] = Inr red \<and>
           (\<forall>combo. combo \<in> set red \<longleftrightarrow>
              combo \<noteq> [] \<and> subseq combo [''A1'', ''A2''] \<and>
              (\<exists>p. equivalence_classes table_xyz combo = Inr p \<and>
                 set (map set p) = set (map set full))) \<and>
           (\<forall>combo. subseq combo [''A1'', ''A2''] \<longrightarrow>
              (\<exists>p. equivalence_classes table_xyz combo = Inr p \<and>
                 (p = full \<longleftrightarrow> set (map set p) = set (map set full)))) \<and>
           (\<forall>r combo. r \<in> set red \<and> set r \<subseteq> set combo \<and> subseq combo [''A1'', ''A2''] \<longrightarrow>
              combo \<in> set red))"
proof -
  have v: "valid_table table_xyz" by code_simp
  have s: "set [''A1'', ''A2''] \<subseteq> set (columns table_xyz)" by code_simp
  have r: "reducts table_xyz [''A1'', ''A2''] = Inr [[''A2''], [''A1'', ''A2'']]" by code_simp
  show ?thesis by (intro conjI v s r reducts_exact [OF v s])
qed

text \<open>
  C2, as the code has it. The accuracy of line 118 lies between 0 and 1 and is 0 when the
  upper approximation is empty. When the upper approximation is not empty, which is the case
  for every decision value that occurs in the table, it is 1 exactly when the boundary is
  empty. The quotient is the exact one; the rounding of the floating-point division is not
  modelled.
\<close>

theorem accuracy_range:
  assumes "valid_table df" and "set attrs \<subseteq> set (columns df)"
  shows "\<exists>lower upper decisions.
           lower_upper df attrs decision_value = Inr (lower, upper) \<and>
           column df ''Decision'' = Inr decisions \<and>
           0 \<le> accuracy lower upper \<and> accuracy lower upper \<le> 1 \<and>
           (upper = [] \<longrightarrow> accuracy lower upper = 0) \<and>
           (upper \<noteq> [] \<longrightarrow> (accuracy lower upper = 1 \<longleftrightarrow> boundary lower upper = [])) \<and>
           (decision_value \<in> set decisions \<longrightarrow> upper \<noteq> [])"
proof -
  let ?d = decision_value
  from assms obtain lower upper where lu: "lower_upper df attrs ?d = Inr (lower, upper)"
    and s: "set lower = set (lower_of df attrs ?d)" "set upper = set (upper_of df attrs ?d)"
    and o: "distinct lower" "distinct upper"
    by (rule lower_upper_sets)
  have sub: "set lower \<subseteq> set upper" using s by (simp add: lower_sub_upper)
  have col: "column df ''Decision'' = Inr (map (dec df) [0 ..< length (data df)])"
    using assms(1) by (rule column_Decision_pure)
  have occ: "upper \<noteq> []" if "?d \<in> set (map (dec df) [0 ..< length (data df)])"
  proof -
    from that obtain i where "i < length (data df)" "?d = dec df i" by auto
    with upper_nonempty [of i df attrs] s(2) have "i \<in> set upper" by simp
    then show ?thesis by auto
  qed
  note acc = accuracy_facts [OF o sub]
  have a3: "upper = [] \<longrightarrow> accuracy lower upper = 0"
    using acc(3) by (rule impI)
  have a4: "upper \<noteq> [] \<longrightarrow> (accuracy lower upper = 1 \<longleftrightarrow> boundary lower upper = [])"
    using acc(4) by (rule impI)
  have a5: "?d \<in> set (map (dec df) [0 ..< length (data df)]) \<longrightarrow> upper \<noteq> []"
    using occ by (rule impI)
  show ?thesis
    by (rule exI [of _ lower], rule exI [of _ upper],
        rule exI [of _ "map (dec df) [0 ..< length (data df)]"])
       (intro conjI lu col acc(1,2) a3 a4 a5)
qed

theorem accuracy_range_witness:
  "valid_table table_xyz \<and> set [''A1''] \<subseteq> set (columns table_xyz) \<and>
   lower_upper table_xyz [''A1''] ''P'' = Inr ([], [0, 1, 2]) \<and>
   column table_xyz ''Decision'' = Inr [''P'', ''P'', ''N''] \<and>
   (\<exists>lower upper decisions.
           lower_upper table_xyz [''A1''] ''P'' = Inr (lower, upper) \<and>
           column table_xyz ''Decision'' = Inr decisions \<and>
           0 \<le> accuracy lower upper \<and> accuracy lower upper \<le> 1 \<and>
           (upper = [] \<longrightarrow> accuracy lower upper = 0) \<and>
           (upper \<noteq> [] \<longrightarrow> (accuracy lower upper = 1 \<longleftrightarrow> boundary lower upper = [])) \<and>
           (''P'' \<in> set decisions \<longrightarrow> upper \<noteq> []))"
proof -
  have v: "valid_table table_xyz" by code_simp
  have s: "set [''A1''] \<subseteq> set (columns table_xyz)" by code_simp
  have u: "lower_upper table_xyz [''A1''] ''P'' = Inr ([], [0, 1, 2])" by code_simp
  have c: "column table_xyz ''Decision'' = Inr [''P'', ''P'', ''N'']" by code_simp
  show ?thesis by (intro conjI v s u c accuracy_range [OF v s])
qed

text \<open>
  C2 as stated fails for a decision value that no row carries: both approximations are
  empty, so the boundary is empty, yet the guard of line 118 makes the accuracy 0, not 1.
\<close>

theorem accuracy_absent_decision_counterexample:
  "valid_table table_xyz \<and> set [''A1''] \<subseteq> set (columns table_xyz) \<and>
   lower_upper table_xyz [''A1''] ''Z'' = Inr ([], []) \<and>
   boundary [] [] = [] \<and> accuracy [] [] \<noteq> 1"
proof -
  have v: "valid_table table_xyz" by code_simp
  have s: "set [''A1''] \<subseteq> set (columns table_xyz)" by code_simp
  have u: "lower_upper table_xyz [''A1''] ''Z'' = Inr ([], [])" by code_simp
  have b: "boundary [] [] = []" by (simp add: boundary_def)
  have a: "accuracy [] [] \<noteq> 1" by (simp add: accuracy_def)
  show ?thesis by (intro conjI v s u b a)
qed

text \<open>
  C3. On a valid table, for attributes that are columns of the table and any decision value,
  \<^verbatim>\<open>lower_upper\<close> returns normally, the lower approximation is a subset of the upper one, and
  the boundary (upper minus lower, as line 112 computes it) shares no identifier with the lower
  approximation.
\<close>

theorem lower_subset_upper:
  assumes "valid_table df" and "set attrs \<subseteq> set (columns df)"
  shows "\<exists>lower upper. lower_upper df attrs decision_value = Inr (lower, upper) \<and>
           set lower \<subseteq> set upper \<and> set (boundary lower upper) \<inter> set lower = {}"
proof -
  from assms obtain lower upper where lu: "lower_upper df attrs decision_value = Inr (lower, upper)"
    and s: "set lower = set (lower_of df attrs decision_value)"
      "set upper = set (upper_of df attrs decision_value)"
    by (rule lower_upper_sets)
  from s have "set lower \<subseteq> set upper" by (simp add: lower_sub_upper)
  moreover have "set (boundary lower upper) \<inter> set lower = {}"
    by (auto simp: boundary_def)
  ultimately show ?thesis using lu by blast
qed

theorem lower_subset_upper_witness:
  "valid_table table_conflict \<and> set [''A1''] \<subseteq> set (columns table_conflict) \<and>
   lower_upper table_conflict [''A1''] ''P'' = Inr ([], [0, 1]) \<and>
   (\<exists>lower upper. lower_upper table_conflict [''A1''] ''P'' = Inr (lower, upper) \<and>
      set lower \<subseteq> set upper \<and> set (boundary lower upper) \<inter> set lower = {})"
proof -
  have v: "valid_table table_conflict" by code_simp
  have s: "set [''A1''] \<subseteq> set (columns table_conflict)" by code_simp
  have e: "lower_upper table_conflict [''A1''] ''P'' = Inr ([], [0, 1])" by code_simp
  show ?thesis by (intro conjI v s e lower_subset_upper [OF v s])
qed

text \<open>
  C4. On a valid table, for attributes that are columns of the table, \<^verbatim>\<open>equivalence_classes\<close>
  returns normally, and the groups it returns are non-empty, pairwise disjoint (no identifier
  occurs twice, within a group or across groups), and together hold exactly the row
  identifiers \<open>0, \<dots>, n - 1\<close> of the table.
\<close>

theorem equivalence_classes_partition:
  assumes "valid_table df" and "set attributes \<subseteq> set (columns df)"
  shows "\<exists>groups. equivalence_classes df attributes = Inr groups \<and>
           [] \<notin> set groups \<and>
           (\<forall>i < length groups. \<forall>j < length groups. i \<noteq> j \<longrightarrow>
              set (groups ! i) \<inter> set (groups ! j) = {}) \<and>
           (\<Union>c \<in> set groups. set c) = {0 ..< length (data df)} \<and>
           distinct (concat groups)"
proof -
  let ?G = "classes (keys df attributes)"
  have h1: "equivalence_classes df attributes = Inr ?G"
    using assms by (rule equivalence_classes_pure)
  have h2: "[] \<notin> set ?G" by (rule classes_nonempty)
  have h5: "distinct (concat ?G)" by (rule distinct_concat_classes)
  have h4: "(\<Union>c \<in> set ?G. set c) = {0 ..< length (data df)}"
    using set_concat_classes [of "keys df attributes"] by simp
  have h3: "\<forall>i < length ?G. \<forall>j < length ?G. i \<noteq> j \<longrightarrow> set (?G ! i) \<inter> set (?G ! j) = {}"
    by (intro allI impI disjoint_by_position [OF h5 h2])
  show ?thesis by (intro exI [of _ ?G] conjI h1 h2 h3 h4 h5)
qed

theorem equivalence_classes_partition_witness:
  "valid_table table_xyz \<and> set [''A1'', ''A2''] \<subseteq> set (columns table_xyz) \<and>
   (\<exists>groups. equivalence_classes table_xyz [''A1'', ''A2''] = Inr groups \<and>
           [] \<notin> set groups \<and>
           (\<forall>i < length groups. \<forall>j < length groups. i \<noteq> j \<longrightarrow>
              set (groups ! i) \<inter> set (groups ! j) = {}) \<and>
           (\<Union>c \<in> set groups. set c) = {0 ..< length (data table_xyz)} \<and>
           distinct (concat groups))"
proof -
  have v: "valid_table table_xyz" by code_simp
  have s: "set [''A1'', ''A2''] \<subseteq> set (columns table_xyz)" by code_simp
  show ?thesis by (intro conjI v s equivalence_classes_partition [OF v s])
qed

text \<open>
  C5. On a valid table with a non-empty attribute list, the list itself is among the results
  of \<^verbatim>\<open>reducts\<close>, so the result is not empty, and every result has a partition with the same
  groups as the partition of the whole list.
\<close>

theorem reducts_contains_full:
  assumes "valid_table df" and "set attrs \<subseteq> set (columns df)" and "attrs \<noteq> []"
  shows "\<exists>full red.
           equivalence_classes df attrs = Inr full \<and> reducts df attrs = Inr red \<and>
           attrs \<in> set red \<and> red \<noteq> [] \<and>
           (\<forall>combo \<in> set red. \<exists>p. equivalence_classes df combo = Inr p \<and>
              set (map set p) = set (map set full))"
proof -
  let ?full = "classes (keys df attrs)"
  let ?red = "filter (\<lambda>c. classes (keys df c) = ?full)
      (concat (map (combinations attrs) [1 ..< length attrs + 1]))"
  have full: "equivalence_classes df attrs = Inr ?full"
    using assms(1,2) by (rule equivalence_classes_pure)
  have red: "reducts df attrs = Inr ?red"
    using assms(1,2) by (rule reducts_pure)
  have mem: "attrs \<in> set ?red"
    unfolding in_reducts using assms(3) by simp
  then have ne: "?red \<noteq> []" by (rule member_nonempty)
  have each: "\<forall>combo \<in> set ?red. \<exists>p. equivalence_classes df combo = Inr p \<and>
      set (map set p) = set (map set ?full)"
  proof
    fix combo assume "combo \<in> set ?red"
    then have c: "subseq combo attrs" "classes (keys df combo) = ?full"
      unfolding in_reducts by simp_all
    from c(1) assms(2) have "set combo \<subseteq> set (columns df)" by (rule subseq_columns)
    with assms(1) have "equivalence_classes df combo = Inr (classes (keys df combo))"
      by (rule equivalence_classes_pure)
    with c(2) show "\<exists>p. equivalence_classes df combo = Inr p \<and>
        set (map set p) = set (map set ?full)"
      by simp
  qed
  show ?thesis
    by (rule exI [of _ ?full], rule exI [of _ ?red]) (intro conjI full red mem ne each)
qed

theorem reducts_contains_full_witness:
  "valid_table table_conflict \<and> set [''A1''] \<subseteq> set (columns table_conflict) \<and> [''A1''] \<noteq> [] \<and>
   reducts table_conflict [''A1''] = Inr [[''A1'']] \<and>
   (\<exists>full red.
           equivalence_classes table_conflict [''A1''] = Inr full \<and>
           reducts table_conflict [''A1''] = Inr red \<and>
           [''A1''] \<in> set red \<and> red \<noteq> [] \<and>
           (\<forall>combo \<in> set red. \<exists>p. equivalence_classes table_conflict combo = Inr p \<and>
              set (map set p) = set (map set full)))"
proof -
  have v: "valid_table table_conflict" by code_simp
  have s: "set [''A1''] \<subseteq> set (columns table_conflict)" by code_simp
  have n: "[''A1''] \<noteq> ([] :: string list)" by simp
  have r: "reducts table_conflict [''A1''] = Inr [[''A1'']]" by code_simp
  show ?thesis by (intro conjI v s n r reducts_contains_full [OF v s n])
qed

text \<open>
  C6. On a valid table, every class under an attribute list is contained in some class under
  any list of attributes drawn from it: the partition of the full attribute set refines the
  partition of each of its subsets.
\<close>

theorem full_partition_refines:
  assumes "valid_table df" and "set attrs \<subseteq> set (columns df)" and "set sub \<subseteq> set attrs"
  shows "\<exists>full part. equivalence_classes df attrs = Inr full \<and>
           equivalence_classes df sub = Inr part \<and>
           (\<forall>c \<in> set full. \<exists>c' \<in> set part. set c \<subseteq> set c')"
proof -
  let ?A = "keys df attrs" and ?B = "keys df sub"
  have full: "equivalence_classes df attrs = Inr (classes ?A)"
    using assms(1,2) by (rule equivalence_classes_pure)
  from assms(2,3) have "set sub \<subseteq> set (columns df)" by (rule order_trans [rotated])
  with assms(1) have part: "equivalence_classes df sub = Inr (classes ?B)"
    by (rule equivalence_classes_pure)
  have "\<exists>c' \<in> set (classes ?B). set c \<subseteq> set c'" if "c \<in> set (classes ?A)" for c
  proof -
    from class_cases [OF that] obtain i where i: "i < length (data df)" "c = members ?A (?A ! i)"
      by auto
    have "set c \<subseteq> set (members ?B (?B ! i))"
    proof
      fix j assume "j \<in> set c"
      with i have j: "j < length (data df)" "?A ! j = ?A ! i" by (simp_all add: set_members)
      from keys_mono [OF assms(3) i(1) j] j(1) show "j \<in> set (members ?B (?B ! i))"
        by (simp add: set_members)
    qed
    moreover have "members ?B (?B ! i) \<in> set (classes ?B)"
      using i(1) class_of_index [of i ?B] by simp
    ultimately show ?thesis by blast
  qed
  with full part show ?thesis by blast
qed

theorem full_partition_refines_witness:
  "valid_table table_xyz \<and> set [''A1'', ''A2''] \<subseteq> set (columns table_xyz) \<and>
   set [''A1''] \<subseteq> set [''A1'', ''A2''] \<and>
   (\<exists>full part. equivalence_classes table_xyz [''A1'', ''A2''] = Inr full \<and>
           equivalence_classes table_xyz [''A1''] = Inr part \<and>
           (\<forall>c \<in> set full. \<exists>c' \<in> set part. set c \<subseteq> set c'))"
proof -
  have v: "valid_table table_xyz" by code_simp
  have s: "set [''A1'', ''A2''] \<subseteq> set (columns table_xyz)" by code_simp
  have t: "set [''A1''] \<subseteq> set [''A1'', ''A2'']" by simp
  show ?thesis by (intro conjI v s t full_partition_refines [OF v s t])
qed

text \<open>
  C7. \<^verbatim>\<open>lower_upper\<close> sorts every equivalence class into one of three cases by the decisions
  of its rows: all equal to the decision value, the class is in both results; some but not
  all, in the upper result only; none, in neither. Nothing else is in the results, and both
  come back sorted and without repetition.
\<close>

theorem lower_upper_classification:
  assumes "valid_table df" and "set attrs \<subseteq> set (columns df)"
  shows "\<exists>eq lower upper.
           equivalence_classes df attrs = Inr eq \<and>
           lower_upper df attrs decision_value = Inr (lower, upper) \<and>
           sorted lower \<and> distinct lower \<and> sorted upper \<and> distinct upper \<and>
           set lower \<subseteq> set upper \<and> set upper \<subseteq> (\<Union>cls \<in> set eq. set cls) \<and>
           (\<forall>cls \<in> set eq. \<exists>decs. loc_decisions df cls = Inr decs \<and>
              ((\<forall>x \<in> set decs. x = decision_value) \<longrightarrow>
                  set cls \<subseteq> set lower \<and> set cls \<subseteq> set upper) \<and>
              ((\<exists>x \<in> set decs. x = decision_value) \<and> (\<exists>x \<in> set decs. x \<noteq> decision_value) \<longrightarrow>
                  set cls \<subseteq> set upper \<and> set cls \<inter> set lower = {}) \<and>
              ((\<forall>x \<in> set decs. x \<noteq> decision_value) \<longrightarrow>
                  set cls \<inter> set upper = {} \<and> set cls \<inter> set lower = {}))"
proof -
  let ?d = decision_value
  let ?G = "classes (keys df attrs)"
  from assms obtain lower upper where lu: "lower_upper df attrs ?d = Inr (lower, upper)"
    and s: "set lower = set (lower_of df attrs ?d)" "set upper = set (upper_of df attrs ?d)"
    and o: "sorted lower" "distinct lower" "sorted upper" "distinct upper"
    by (rule lower_upper_sets)
  have eq: "equivalence_classes df attrs = Inr ?G"
    using assms by (rule equivalence_classes_pure)
  have sub: "set lower \<subseteq> set upper" using s by (simp add: lower_sub_upper)
  have uni: "set upper \<subseteq> (\<Union>cls \<in> set ?G. set cls)"
    using s upper_sub_universe [of df attrs ?d] by simp
  have cls: "\<exists>decs. loc_decisions df cls = Inr decs \<and>
      ((\<forall>x \<in> set decs. x = ?d) \<longrightarrow> set cls \<subseteq> set lower \<and> set cls \<subseteq> set upper) \<and>
      ((\<exists>x \<in> set decs. x = ?d) \<and> (\<exists>x \<in> set decs. x \<noteq> ?d) \<longrightarrow>
          set cls \<subseteq> set upper \<and> set cls \<inter> set lower = {}) \<and>
      ((\<forall>x \<in> set decs. x \<noteq> ?d) \<longrightarrow> set cls \<inter> set upper = {} \<and> set cls \<inter> set lower = {})"
    if c: "cls \<in> set ?G" for cls
  proof -
    have "i < length (data df)" if "i \<in> set cls" for i
      using classes_bound [OF c that] by simp
    with assms(1) have loc: "loc_decisions df cls = Inr (map (dec df) cls)"
      by (rule loc_decisions_pure)
    from c classes_nonempty [of "keys df attrs"] have ne: "cls \<noteq> []" by blast
    have all: "set cls \<subseteq> set lower \<and> set cls \<subseteq> set upper"
      if "\<forall>x \<in> set (map (dec df) cls). x = ?d"
    proof -
      from that ne have "dec df ` set cls = {?d}" by (cases cls) auto
      then have "certain df ?d cls" by (simp add: certain_def)
      with c s show ?thesis
        using class_sub_lower [of cls df attrs ?d] class_sub_upper [of cls df attrs ?d]
          certain_possible [of df ?d cls] by simp
    qed
    have some: "set cls \<subseteq> set upper \<and> set cls \<inter> set lower = {}"
      if "(\<exists>x \<in> set (map (dec df) cls). x = ?d) \<and> (\<exists>x \<in> set (map (dec df) cls). x \<noteq> ?d)"
    proof -
      from that have "possible df ?d cls" "\<not> certain df ?d cls"
        by (auto simp: possible_def certain_def)
      with c s show ?thesis
        using class_sub_upper [of cls df attrs ?d] class_off_lower [of cls df attrs ?d] by simp
    qed
    have none: "set cls \<inter> set upper = {} \<and> set cls \<inter> set lower = {}"
      if "\<forall>x \<in> set (map (dec df) cls). x \<noteq> ?d"
    proof -
      from that have "\<not> possible df ?d cls" by (auto simp: possible_def)
      moreover from this have "\<not> certain df ?d cls" using certain_possible by blast
      ultimately show ?thesis using c s
        using class_off_upper [of cls df attrs ?d] class_off_lower [of cls df attrs ?d] by simp
    qed
    show ?thesis by (intro exI [of _ "map (dec df) cls"] conjI impI loc) (use all some none in blast)+
  qed
  show ?thesis
    by (intro exI [of _ ?G] exI [of _ lower] exI [of _ upper] conjI ballI eq lu o sub uni cls)
qed

theorem lower_upper_classification_witness:
  "valid_table table_xyz \<and> set [''A1''] \<subseteq> set (columns table_xyz) \<and>
   equivalence_classes table_xyz [''A1''] = Inr [[0, 1, 2]] \<and>
   loc_decisions table_xyz [0, 1, 2] = Inr [''P'', ''P'', ''N''] \<and>
   lower_upper table_xyz [''A1''] ''P'' = Inr ([], [0, 1, 2]) \<and>
   (\<exists>eq lower upper.
           equivalence_classes table_xyz [''A1''] = Inr eq \<and>
           lower_upper table_xyz [''A1''] ''P'' = Inr (lower, upper) \<and>
           sorted lower \<and> distinct lower \<and> sorted upper \<and> distinct upper \<and>
           set lower \<subseteq> set upper \<and> set upper \<subseteq> (\<Union>cls \<in> set eq. set cls) \<and>
           (\<forall>cls \<in> set eq. \<exists>decs. loc_decisions table_xyz cls = Inr decs \<and>
              ((\<forall>x \<in> set decs. x = ''P'') \<longrightarrow>
                  set cls \<subseteq> set lower \<and> set cls \<subseteq> set upper) \<and>
              ((\<exists>x \<in> set decs. x = ''P'') \<and> (\<exists>x \<in> set decs. x \<noteq> ''P'') \<longrightarrow>
                  set cls \<subseteq> set upper \<and> set cls \<inter> set lower = {}) \<and>
              ((\<forall>x \<in> set decs. x \<noteq> ''P'') \<longrightarrow>
                  set cls \<inter> set upper = {} \<and> set cls \<inter> set lower = {})))"
proof -
  have v: "valid_table table_xyz" by code_simp
  have s: "set [''A1''] \<subseteq> set (columns table_xyz)" by code_simp
  have e: "equivalence_classes table_xyz [''A1''] = Inr [[0, 1, 2]]" by code_simp
  have l: "loc_decisions table_xyz [0, 1, 2] = Inr [''P'', ''P'', ''N'']" by code_simp
  have u: "lower_upper table_xyz [''A1''] ''P'' = Inr ([], [0, 1, 2])" by code_simp
  show ?thesis by (intro conjI v s e l u lower_upper_classification [OF v s])
qed

text \<open>
  C8. On a valid table, \<^verbatim>\<open>extract_rules\<close> returns normally; its list of rule texts has no
  repetition and is sorted, strictly increasing in the lexicographic order of the texts by
  character code; and it is empty exactly when the lower approximation of every decision
  value of the table is empty.
\<close>

theorem extract_rules_sorted_distinct:
  assumes "valid_table df" and "set attrs \<subseteq> set (columns df)"
  shows "\<exists>rules decisions.
           extract_rules df attrs = Inr rules \<and> column df ''Decision'' = Inr decisions \<and>
           distinct rules \<and> sorted rules \<and> sorted_wrt text_less rules \<and>
           (rules = [] \<longleftrightarrow>
              (\<forall>d \<in> set decisions. \<exists>lower upper.
                  lower_upper df attrs d = Inr (lower, upper) \<and> lower = []))"
proof -
  let ?D = "map (dec df) [0 ..< length (data df)]"
  let ?R = "concat (map (\<lambda>d. map (rule_of df attrs d) (lower_list df attrs d)) (unique ?D))"
  let ?rules = "sorted_list_of_set (set ?R)"
  have ex: "extract_rules df attrs = Inr ?rules"
    using assms by (rule extract_rules_pure)
  have col: "column df ''Decision'' = Inr ?D"
    using assms(1) by (rule column_Decision_pure)
  have d: "distinct ?rules" by simp
  have s: "sorted ?rules" by simp
  from s d have t: "sorted_wrt text_less ?rules" by (rule strictly_increasing_text)
  have lu: "lower_upper df attrs d =
      Inr (lower_list df attrs d, sorted_list_of_set (set (upper_of df attrs d)))" for d
    unfolding lower_list_def using assms by (rule lower_upper_pure)
  have "?rules = [] \<longleftrightarrow> set ?R = {}"
    by (simp only: sorted_list_of_set_eq_Nil_iff [OF finite_set])
  also have "\<dots> \<longleftrightarrow> ?R = []"
    by (simp only: set_empty)
  also have "\<dots> \<longleftrightarrow> (\<forall>d \<in> set ?D. lower_list df attrs d = [])"
    by (simp only: concat_map_Nil set_unique map_is_Nil_conv)
  also have "\<dots> \<longleftrightarrow> (\<forall>d \<in> set ?D. \<exists>lower upper.
      lower_upper df attrs d = Inr (lower, upper) \<and> lower = [])"
    by (simp add: lu del: set_map set_upt)
  finally have e: "?rules = [] \<longleftrightarrow> (\<forall>d \<in> set ?D. \<exists>lower upper.
      lower_upper df attrs d = Inr (lower, upper) \<and> lower = [])" .
  show ?thesis
    by (rule exI [of _ ?rules], rule exI [of _ ?D]) (intro conjI ex col d s t e)
qed

theorem extract_rules_sorted_distinct_witness:
  "valid_table table_xyz \<and> set [''A1'', ''A2''] \<subseteq> set (columns table_xyz) \<and>
   extract_rules table_xyz [''A1'', ''A2''] =
     Inr [''IF A1=x AND A2=y THEN Decision = P'', ''IF A1=x AND A2=z THEN Decision = N''] \<and>
   extract_rules table_conflict [''A1''] = Inr [] \<and>
   (\<exists>rules decisions.
           extract_rules table_xyz [''A1'', ''A2''] = Inr rules \<and>
           column table_xyz ''Decision'' = Inr decisions \<and>
           distinct rules \<and> sorted rules \<and> sorted_wrt text_less rules \<and>
           (rules = [] \<longleftrightarrow>
              (\<forall>d \<in> set decisions. \<exists>lower upper.
                  lower_upper table_xyz [''A1'', ''A2''] d = Inr (lower, upper) \<and> lower = [])))"
proof -
  have v: "valid_table table_xyz" by code_simp
  have s: "set [''A1'', ''A2''] \<subseteq> set (columns table_xyz)" by code_simp
  have r: "extract_rules table_xyz [''A1'', ''A2''] =
     Inr [''IF A1=x AND A2=y THEN Decision = P'', ''IF A1=x AND A2=z THEN Decision = N'']"
    by code_simp
  have c: "extract_rules table_conflict [''A1''] = Inr []" by code_simp
  show ?thesis by (intro conjI v s r c extract_rules_sorted_distinct [OF v s])
qed

text \<open>
  C9, as the code has it. The source has no \<^verbatim>\<open>InvalidAttributeError\<close> and no check of the
  names. A name that is not a column of the frame makes the first \<^verbatim>\<open>row[a]\<close> raise
  \<^verbatim>\<open>KeyError\<close>, provided the table has a row; names that are columns, and so every list of
  condition attributes, never fail.
\<close>

theorem equivalence_classes_errors:
  assumes "valid_table df"
  shows "(data df \<noteq> [] \<and> \<not> set attributes \<subseteq> set (columns df) \<longrightarrow>
            equivalence_classes df attributes = Inl KeyError) \<and>
         (set attributes \<subseteq> set (columns df) \<longrightarrow>
            (\<exists>groups. equivalence_classes df attributes = Inr groups)) \<and>
         (set attributes \<subseteq> set (attr_names df) \<longrightarrow>
            (\<exists>groups. equivalence_classes df attributes = Inr groups))"
proof (intro conjI impI)
  assume "data df \<noteq> [] \<and> \<not> set attributes \<subseteq> set (columns df)"
  then obtain row rows a where d: "data df = row # rows" and a: "a \<in> set attributes" "a \<notin> set (columns df)"
    by (cases "data df") auto
  from a have "map_err (row_get (columns df) row) attributes = Inl KeyError"
    by (intro map_err_fails [of a]) (simp_all add: row_get_unknown)
  then show "equivalence_classes df attributes = Inl KeyError"
    by (simp add: equivalence_classes_def d)
next
  assume "set attributes \<subseteq> set (columns df)"
  with assms show "\<exists>groups. equivalence_classes df attributes = Inr groups"
    by (simp add: equivalence_classes_pure)
next
  assume "set attributes \<subseteq> set (attr_names df)"
  then have "set attributes \<subseteq> set (columns df)"
    by (auto simp: attr_names_def dest: in_set_butlastD)
  with assms show "\<exists>groups. equivalence_classes df attributes = Inr groups"
    by (simp add: equivalence_classes_pure)
qed

theorem equivalence_classes_errors_witness:
  "valid_table table_xyz \<and> data table_xyz \<noteq> [] \<and> \<not> set [''A9''] \<subseteq> set (columns table_xyz) \<and>
   equivalence_classes table_xyz [''A9''] = Inl KeyError \<and>
   set [''A1''] \<subseteq> set (columns table_xyz) \<and> set [''A1''] \<subseteq> set (attr_names table_xyz) \<and>
   (\<exists>groups. equivalence_classes table_xyz [''A1''] = Inr groups)"
proof -
  have v: "valid_table table_xyz" by code_simp
  have d: "data table_xyz \<noteq> []" by code_simp
  have n: "\<not> set [''A9''] \<subseteq> set (columns table_xyz)" by code_simp
  have s: "set [''A1''] \<subseteq> set (columns table_xyz)" by code_simp
  have t: "set [''A1''] \<subseteq> set (attr_names table_xyz)" by code_simp
  from equivalence_classes_errors [OF v, of "[''A9'']"] d n
  have e: "equivalence_classes table_xyz [''A9''] = Inl KeyError" by blast
  from equivalence_classes_errors [OF v, of "[''A1'']"] s
  have g: "\<exists>groups. equivalence_classes table_xyz [''A1''] = Inr groups" by blast
  show ?thesis by (intro conjI v d n e s t g)
qed

text \<open>
  C9 as stated fails: \<^verbatim>\<open>Decision\<close> is not a condition attribute, and the partition by it
  is computed without any error.
\<close>

theorem decision_name_accepted_counterexample:
  "valid_table table_xyz \<and> ''Decision'' \<notin> set (attr_names table_xyz) \<and>
   equivalence_classes table_xyz [''Decision''] = Inr [[0, 1], [2]]"
  by code_simp

text \<open>
  C10. \<^verbatim>\<open>inconsistent_objects\<close> reports no conflict exactly when, for every decision value of
  the \<^verbatim>\<open>Decision\<close> column, the lower and upper approximations under the same attributes are
  equal.
\<close>

theorem consistent_iff_exact:
  assumes "valid_table df" and "set attrs \<subseteq> set (columns df)"
  shows "\<exists>conflicts decisions.
           inconsistent_objects df attrs = Inr conflicts \<and>
           column df ''Decision'' = Inr decisions \<and>
           (conflicts = [] \<longleftrightarrow>
              (\<forall>d \<in> set decisions. \<exists>lower upper.
                  lower_upper df attrs d = Inr (lower, upper) \<and> lower = upper))"
proof -
  let ?G = "classes (keys df attrs)"
  let ?C = "map (\<lambda>c. (c, dec df ` set c)) (filter (\<lambda>c. card (dec df ` set c) > 1) ?G)"
  let ?D = "map (dec df) [0 ..< length (data df)]"
  have io: "inconsistent_objects df attrs = Inr ?C"
    using assms by (rule inconsistent_objects_pure)
  have col: "column df ''Decision'' = Inr ?D"
    using assms(1) by (rule column_Decision_pure)
  have lu: "lower_upper df attrs d =
      Inr (sorted_list_of_set (set (lower_of df attrs d)), sorted_list_of_set (set (upper_of df attrs d)))" for d
    using assms by (rule lower_upper_pure)
  have inj: "sorted_list_of_set (set xs) = sorted_list_of_set (set ys) \<longleftrightarrow> set xs = set ys"
    for xs ys :: "nat list"
    by (auto dest: sorted_list_of_set_inject)
  have "?C = [] \<longleftrightarrow> (\<forall>c \<in> set ?G. card (dec df ` set c) \<le> 1)"
    by (auto simp: filter_empty_conv not_less)
  also have "\<dots> \<longleftrightarrow>
      (\<forall>i < length (data df). set (lower_of df attrs (dec df i)) = set (upper_of df attrs (dec df i)))"
    by (rule homogeneous_iff)
  also have "\<dots> \<longleftrightarrow>
      (\<forall>d \<in> set ?D. sorted_list_of_set (set (lower_of df attrs d)) =
          sorted_list_of_set (set (upper_of df attrs d)))"
    by (auto simp: inj)
  also have "\<dots> \<longleftrightarrow>
      (\<forall>d \<in> set ?D. \<exists>lower upper. lower_upper df attrs d = Inr (lower, upper) \<and> lower = upper)"
    by (simp add: lu)
  finally have main: "?C = [] \<longleftrightarrow>
      (\<forall>d \<in> set ?D. \<exists>lower upper. lower_upper df attrs d = Inr (lower, upper) \<and> lower = upper)" .
  show ?thesis by (intro exI [of _ ?C] exI [of _ ?D] conjI io col main)
qed

theorem consistent_iff_exact_witness:
  "valid_table table_conflict \<and> set [''A1''] \<subseteq> set (columns table_conflict) \<and>
   inconsistent_objects table_conflict [''A1''] = Inr [([0, 1], {''P'', ''N''})] \<and>
   lower_upper table_conflict [''A1''] ''P'' = Inr ([], [0, 1]) \<and>
   (\<exists>conflicts decisions.
           inconsistent_objects table_conflict [''A1''] = Inr conflicts \<and>
           column table_conflict ''Decision'' = Inr decisions \<and>
           (conflicts = [] \<longleftrightarrow>
              (\<forall>d \<in> set decisions. \<exists>lower upper.
                  lower_upper table_conflict [''A1''] d = Inr (lower, upper) \<and> lower = upper)))"
proof -
  have v: "valid_table table_conflict" by code_simp
  have s: "set [''A1''] \<subseteq> set (columns table_conflict)" by code_simp
  have i: "inconsistent_objects table_conflict [''A1''] = Inr [([0, 1], {''P'', ''N''})]" by code_simp
  have u: "lower_upper table_conflict [''A1''] ''P'' = Inr ([], [0, 1])" by code_simp
  show ?thesis by (intro conjI v s i u consistent_iff_exact [OF v s])
qed

end
